theory Spec2Isabelle
  imports Main "HOL-Library.Sublist"
begin

section \<open>Python strings\<close>

text \<open>
  A Python \<open>str\<close> is a sequence of Unicode code points, so it is modelled as a list of
  natural numbers. ASCII literals of the scripts are written with \<open>ascii\<close>; the few
  non-ASCII literals are given by their code points.
\<close>

type_synonym pystr = "nat list"

definition ascii :: "string \<Rightarrow> pystr" where
  "ascii s = map of_char s"

definition LF :: nat where
  "LF = 10"

definition CR :: nat where
  "CR = 13"

text \<open>\<open>str.isspace\<close> for one code point: the characters \<open>str.strip()\<close> removes.\<close>

definition isspace :: "nat \<Rightarrow> bool" where
  "isspace c \<longleftrightarrow>
     (9 \<le> c \<and> c \<le> 13) \<or> (28 \<le> c \<and> c \<le> 32) \<or> c = 133 \<or> c = 160 \<or> c = 5760 \<or>
     (8192 \<le> c \<and> c \<le> 8202) \<or> c = 8232 \<or> c = 8233 \<or> c = 8239 \<or> c = 8287 \<or> c = 12288"

text \<open>\<open>s.strip()\<close>\<close>

definition strip :: "pystr \<Rightarrow> pystr" where
  "strip s = rev (dropWhile isspace (rev (dropWhile isspace s)))"

text \<open>\<open>s.startswith(p)\<close>\<close>

definition startswith :: "pystr \<Rightarrow> pystr \<Rightarrow> bool" where
  "startswith s p = prefix p s"

text \<open>\<open>sub in s\<close>\<close>

fun contains :: "pystr \<Rightarrow> pystr \<Rightarrow> bool" where
  "contains sub [] = (sub = [])"
| "contains sub (c # cs) = (prefix sub (c # cs) \<or> contains sub cs)"

text \<open>\<open>s.split('\n')\<close>: the result always has at least one element.\<close>

fun split_nl :: "pystr \<Rightarrow> pystr list" where
  "split_nl [] = [[]]"
| "split_nl (c # cs) =
     (if c = LF then [] # split_nl cs
      else (case split_nl cs of [] \<Rightarrow> [[c]] | l # ls \<Rightarrow> (c # l) # ls))"

text \<open>\<open>'\n'.join(ls)\<close>\<close>

fun join_nl :: "pystr list \<Rightarrow> pystr" where
  "join_nl [] = []"
| "join_nl [l] = l"
| "join_nl (l # m # ls) = l @ LF # join_nl (m # ls)"

text \<open>
  Reading a file opened in text mode with the default \<open>newline=None\<close> translates
  \<open>'\r\n'\<close> and a lone \<open>'\r'\<close> to \<open>'\n'\<close>. Writing on Linux leaves the text as it is.
\<close>

fun universal_newlines :: "pystr \<Rightarrow> pystr" where
  "universal_newlines [] = []"
| "universal_newlines [c] = (if c = CR then [LF] else [c])"
| "universal_newlines (c # d # cs) =
     (if c = CR \<and> d = LF then LF # universal_newlines cs
      else if c = CR then LF # universal_newlines (d # cs)
      else c # universal_newlines (d # cs))"

section \<open>The managed block of \<open>enable_bbr\<close>\<close>

definition bbr_marker :: pystr where
  "bbr_marker = ascii ''# BBR Configuration''"

text \<open>The second marker the loop looks for: \<open># BBR\<close> followed by four CJK characters.\<close>

definition bbr_marker_cjk :: pystr where
  "bbr_marker_cjk = ascii ''# BBR'' @ [0x7F51, 0x7EDC, 0x52A0, 0x901F]"

definition qdisc_key :: pystr where
  "qdisc_key = ascii ''net.core.default_qdisc''"

definition congestion_key :: pystr where
  "congestion_key = ascii ''net.ipv4.tcp_congestion_control''"

definition bbr_marker_line :: pystr where
  "bbr_marker_line = ascii ''# BBR Configuration - Auto Generated''"

definition qdisc_line :: pystr where
  "qdisc_line = ascii ''net.core.default_qdisc=fq''"

definition congestion_line :: pystr where
  "congestion_line = ascii ''net.ipv4.tcp_congestion_control=bbr''"

text \<open>The string \<open>bbr_config\<close> of the script: it starts with a newline and ends without one.\<close>

definition bbr_config :: pystr where
  "bbr_config = LF # bbr_marker_line @ LF # qdisc_line @ LF # congestion_line"

text \<open>
  The cleaning loop of \<open>enable_bbr\<close> over the lines of the file. The first argument is
  the flag \<open>skip_bbr_section\<close>; the result is \<open>cleaned_lines\<close>, the lines the loop
  appends, in order. Every line is stripped first, and the stripped line is what is kept.
\<close>

fun bbr_clean :: "bool \<Rightarrow> pystr list \<Rightarrow> pystr list" where
  "bbr_clean skip [] = []"
| "bbr_clean skip (l # ls) =
     (let line = strip l in
      if contains bbr_marker line \<or> contains bbr_marker_cjk line then bbr_clean True ls
      else if skip \<and> (startswith line qdisc_key \<or> startswith line congestion_key)
        then bbr_clean skip ls
      else if skip \<and> (line = [] \<or> startswith line (ascii ''#''))
        then (if line \<noteq> [] then line # bbr_clean False ls else bbr_clean False ls)
      else line # bbr_clean False ls)"

text \<open>
  Steps 3 and 4 of \<open>enable_bbr\<close> on the text read from the file: what the three
  \<open>f.write\<close> calls put into the file.
\<close>

definition bbr_rewrite :: "pystr \<Rightarrow> pystr" where
  "bbr_rewrite content =
     join_nl (bbr_clean False (split_nl content)) @ bbr_config @ [LF]"

section \<open>The host: files, swap areas and external commands\<close>

type_synonym path = pystr

text \<open>
  The command lines the scripts pass to \<open>run\<close>. \<open>cp\<close>, \<open>mv\<close>, \<open>swapon\<close> and
  \<open>swapoff\<close> of one or two paths have their effect modelled; every other command line
  is kept by its text. A path is taken to be one shell word.
\<close>

datatype command =
    Cp path path
  | Mv path path
  | Swapon path
  | Swapoff path
  | Shell pystr

text \<open>The file operations the scripts perform from Python.\<close>

datatype pyop =
    Open_r path
  | Open_w path
  | Open_a path
  | Write path
  | Replace path path
  | Makedirs path
  | Chmod path

text \<open>The fields of \<open>subprocess.CompletedProcess\<close> that the scripts read.\<close>

record completed =
  returncode :: int
  stdout :: pystr
  stderr :: pystr

text \<open>
  What an observer of the host can see over time: each command that was run, each content
  a file has taken (\<open>None\<close>: the file is gone), and each list of active swap areas.
\<close>

datatype event =
    Ran command
  | FileSet path "pystr option"
  | SwapSet "path list"

text \<open>
  The host state. \<open>files\<close> holds the text of each regular file, \<open>dirs\<close> the
  directories, \<open>swaps\<close> the active swap areas as \<open>swapon --show\<close> lists them, and
  \<open>events\<close> the history, oldest first. The last four fields are the environment: what
  the \<open>n\<close>-th step returns when it is an external command, how a command line without a
  modelled effect changes the files, whether a Python file operation fails at step \<open>n\<close>,
  and how many characters of a failing write reach the file.
\<close>

record host =
  files :: "path \<rightharpoonup> pystr"
  dirs :: "path set"
  swaps :: "path list"
  events :: "event list"
  outcome :: "nat \<Rightarrow> command \<Rightarrow> completed"
  shell_effect :: "nat \<Rightarrow> pystr \<Rightarrow> (path \<rightharpoonup> pystr) \<Rightarrow> (path \<rightharpoonup> pystr)"
  pyfault :: "nat \<Rightarrow> pyop \<Rightarrow> bool"
  partial :: "nat \<Rightarrow> nat"

datatype exn =
    CalledProcessError int command
  | OSError pyop
  | Exception string

text \<open>A computation on the host either raises or returns; the host it leaves is kept in both cases.\<close>

type_synonym 'a io = "host \<Rightarrow> (exn + 'a) \<times> host"

definition ret :: "'a \<Rightarrow> 'a io" where
  "ret x h = (Inr x, h)"


definition bind :: "'a io \<Rightarrow> ('a \<Rightarrow> 'b io) \<Rightarrow> 'b io" where
  "bind m f h = (case m h of (Inl e, h') \<Rightarrow> (Inl e, h') | (Inr x, h') \<Rightarrow> f x h')"

definition seq :: "'a io \<Rightarrow> 'b io \<Rightarrow> 'b io" where
  "seq m n = bind m (\<lambda>_. n)"

text \<open>The step counter of the environment: the number of events so far.\<close>

definition clock :: "host \<Rightarrow> nat" where
  "clock h = length (events h)"

definition log_event :: "event \<Rightarrow> host \<Rightarrow> host" where
  "log_event e h = h\<lparr>events := events h @ [e]\<rparr>"

definition set_file :: "path \<Rightarrow> pystr option \<Rightarrow> host \<Rightarrow> host" where
  "set_file p c h = log_event (FileSet p c) (h\<lparr>files := (files h)(p := c)\<rparr>)"

definition set_swaps :: "path list \<Rightarrow> host \<Rightarrow> host" where
  "set_swaps ps h = log_event (SwapSet ps) (h\<lparr>swaps := ps\<rparr>)"

definition failed :: "completed \<Rightarrow> completed" where
  "failed r = r\<lparr>returncode := 1\<rparr>"

text \<open>
  One external command. The environment may make any command fail, and a failing command
  changes nothing. Otherwise \<open>cp\<close> and \<open>mv\<close> need their source to be a file other than
  the destination, \<open>swapoff\<close> needs an active area and \<open>swapon\<close> an inactive one; a
  \<open>mv\<close> also renames an active swap area.
\<close>

definition exec :: "command \<Rightarrow> host \<Rightarrow> completed \<times> host" where
  "exec c h =
     (let r = outcome h (clock h) c; h1 = log_event (Ran c) h in
      if returncode r \<noteq> 0 then (r, h1)
      else case c of
        Cp src dst \<Rightarrow>
          (case files h src of
             None \<Rightarrow> (failed r, h1)
           | Some t \<Rightarrow> if src = dst then (failed r, h1) else (r, set_file dst (Some t) h1))
      | Mv src dst \<Rightarrow>
          (case files h src of
             None \<Rightarrow> (failed r, h1)
           | Some t \<Rightarrow>
               if src = dst then (failed r, h1)
               else (r, (if src \<in> set (swaps h)
                         then set_swaps (map (\<lambda>p. if p = src then dst else p) (swaps h))
                         else id)
                          (set_file dst (Some t) (set_file src None h1))))
      | Swapon p \<Rightarrow>
          (if p \<in> set (swaps h) then (failed r, h1) else (r, set_swaps (swaps h @ [p]) h1))
      | Swapoff p \<Rightarrow>
          (if p \<in> set (swaps h) then (r, set_swaps (removeAll p (swaps h)) h1)
           else (failed r, h1))
      | Shell t \<Rightarrow> (r, h1\<lparr>files := shell_effect h (clock h) t (files h)\<rparr>))"

text \<open>\<open>run(command, check)\<close>: with \<open>check\<close>, a non-zero return code raises.\<close>

definition run :: "command \<Rightarrow> bool \<Rightarrow> completed io" where
  "run c check h =
     (case exec c h of (r, h') \<Rightarrow>
        if check \<and> returncode r \<noteq> 0 then (Inl (CalledProcessError (returncode r) c), h')
        else (Inr r, h'))"

text \<open>\<open>os.path.exists\<close>\<close>

definition path_exists :: "host \<Rightarrow> path \<Rightarrow> bool" where
  "path_exists h p \<longleftrightarrow> files h p \<noteq> None \<or> p \<in> dirs h"

text \<open>\<open>open(p).read()\<close>\<close>

definition py_read :: "path \<Rightarrow> pystr io" where
  "py_read p h =
     (if pyfault h (clock h) (Open_r p) then (Inl (OSError (Open_r p)), h)
      else case files h p of
        None \<Rightarrow> (Inl (OSError (Open_r p)), h)
      | Some t \<Rightarrow> (Inr (universal_newlines t), h))"

text \<open>\<open>open(p, "w")\<close>: creates or truncates the file.\<close>

definition py_open_w :: "path \<Rightarrow> unit io" where
  "py_open_w p h =
     (if pyfault h (clock h) (Open_w p) \<or> p \<in> dirs h then (Inl (OSError (Open_w p)), h)
      else (Inr (), set_file p (Some []) h))"


text \<open>\<open>f.write(text)\<close> on the open file \<open>p\<close>; a failing write leaves a prefix of the text.\<close>

definition py_write :: "path \<Rightarrow> pystr \<Rightarrow> unit io" where
  "py_write p text h =
     (let old = (case files h p of None \<Rightarrow> [] | Some t \<Rightarrow> t) in
      if pyfault h (clock h) (Write p)
      then (Inl (OSError (Write p)), set_file p (Some (old @ take (partial h (clock h)) text)) h)
      else (Inr (), set_file p (Some (old @ text)) h))"

text \<open>\<open>os.replace(src, dst)\<close>\<close>

definition os_replace :: "path \<Rightarrow> path \<Rightarrow> unit io" where
  "os_replace src dst h =
     (if pyfault h (clock h) (Replace src dst) then (Inl (OSError (Replace src dst)), h)
      else case files h src of
        None \<Rightarrow> (Inl (OSError (Replace src dst)), h)
      | Some t \<Rightarrow> (Inr (), set_file src None (set_file dst (Some t) h)))"

section \<open>ConfigManager\<close>

text \<open>\<open>str(n)\<close> for a natural number.\<close>

fun str_nat :: "nat \<Rightarrow> pystr" where
  "str_nat n = (if n < 10 then [48 + n] else str_nat (n div 10) @ [48 + n mod 10])"

declare str_nat.simps [simp del]

text \<open>The reading of the local clock, as \<open>datetime.now()\<close> returns it.\<close>

record datetime =
  year :: nat
  month :: nat
  day :: nat
  hour :: nat
  minute :: nat
  second :: nat
  microsecond :: nat

definition pad2 :: "nat \<Rightarrow> pystr" where
  "pad2 n = [48 + n div 10 mod 10, 48 + n mod 10]"

text \<open>\<open>strftime("%Y%m%d%H%M%S")\<close>\<close>

definition strftime_YmdHMS :: "datetime \<Rightarrow> pystr" where
  "strftime_YmdHMS t =
     str_nat (year t) @ pad2 (month t) @ pad2 (day t) @ pad2 (hour t) @ pad2 (minute t) @
     pad2 (second t)"

definition backup_name :: "path \<Rightarrow> pystr \<Rightarrow> path" where
  "backup_name file_path timestamp = file_path @ ascii ''.bak.'' @ timestamp"

text \<open>\<open>ConfigManager.create_backup\<close>, with the clock reading as an argument.\<close>

definition create_backup :: "datetime \<Rightarrow> path \<Rightarrow> host \<Rightarrow> path option \<times> host" where
  "create_backup now file_path h =
     (if \<not> path_exists h file_path then (None, h)
      else let backup_path = backup_name file_path (strftime_YmdHMS now) in
        case run (Cp file_path backup_path) True h of
          (Inl e, h') \<Rightarrow> (None, h')
        | (Inr r, h') \<Rightarrow> (Some backup_path, h'))"

text \<open>\<open>ConfigManager.restore_backup\<close>\<close>

definition restore_backup :: "path \<Rightarrow> path \<Rightarrow> host \<Rightarrow> bool \<times> host" where
  "restore_backup backup_path original_path h =
     (if \<not> path_exists h backup_path then (False, h)
      else case run (Mv backup_path original_path) True h of
          (Inl e, h') \<Rightarrow> (False, h')
        | (Inr r, h') \<Rightarrow> (True, h'))"

text \<open>\<open>ConfigManager.atomic_write\<close>\<close>

definition atomic_write :: "path \<Rightarrow> pystr \<Rightarrow> host \<Rightarrow> bool \<times> host" where
  "atomic_write file_path content h =
     (let tmp_file = file_path @ ascii ''.tmp'' in
      case seq (py_open_w tmp_file) (seq (py_write tmp_file content) (os_replace tmp_file file_path)) h of
        (Inl e, h') \<Rightarrow> (False, h')
      | (Inr u, h') \<Rightarrow> (True, h'))"

section \<open>Writing the managed block into the file\<close>



text \<open>
  Steps 3 and 4 of \<open>enable_bbr\<close> on the file: read it, clean the lines, open it for
  writing and write the cleaned lines, the block and a final newline.
\<close>

definition bbr_rewrite_step :: "path \<Rightarrow> unit io" where
  "bbr_rewrite_step sysctl_conf =
     bind (py_read sysctl_conf) (\<lambda>content.
       let cleaned_lines = bbr_clean False (split_nl content) in
       seq (py_open_w sysctl_conf)
      (seq (py_write sysctl_conf (join_nl cleaned_lines))
      (seq (py_write sysctl_conf bbr_config)
           (py_write sysctl_conf [LF]))))"

section \<open>The managed block of \<open>configure_ip_priority\<close>\<close>

datatype priority = IPv4 | IPv6

definition ip_marker :: pystr where
  "ip_marker = ascii ''# IP Priority Configuration''"

text \<open>The second marker: \<open># IP\<close> followed by five CJK characters.\<close>

definition ip_marker_cjk :: pystr where
  "ip_marker_cjk = ascii ''# IP'' @ [0x4F18, 0x5148, 0x7EA7, 0x914D, 0x7F6E]"

definition precedence_key :: pystr where
  "precedence_key = ascii ''precedence''"

definition label_key :: pystr where
  "label_key = ascii ''label''"

text \<open>
  The cleaning loop of \<open>configure_ip_priority\<close>. The test is made on the stripped line,
  and the line that is kept is the original one.
\<close>

fun ip_clean :: "bool \<Rightarrow> pystr list \<Rightarrow> pystr list" where
  "ip_clean skip [] = []"
| "ip_clean skip (original_line # ls) =
     (let line = strip original_line in
      if contains ip_marker line \<or> contains ip_marker_cjk line then ip_clean True ls
      else if skip \<and> (startswith line precedence_key \<or> startswith line label_key \<or>
                       line = [] \<or> startswith line (ascii ''#''))
        then (if skip \<and> line \<noteq> [] \<and> \<not> startswith line (ascii ''#'') \<and>
                 \<not> startswith line precedence_key \<and> \<not> startswith line label_key
              then original_line # ip_clean False ls
              else ip_clean skip ls)
      else original_line # ip_clean False ls)"

text \<open>The lines of the two blocks; the second line of each is a comment with CJK characters.\<close>

fun priority_lines :: "priority \<Rightarrow> pystr list" where
  "priority_lines IPv4 =
     [ascii ''# IP Priority Configuration - IPv4 Preferred'',
      ascii ''# IPv4'' @ [0x4F18, 0x5148, 0x914D, 0x7F6E],
      ascii ''precedence ::ffff:0:0/96  100'',
      ascii ''precedence ::/0          50'',
      ascii ''precedence 2002::/16     30'',
      ascii ''precedence ::/96         20'',
      ascii ''precedence ::1/128       40'']"
| "priority_lines IPv6 =
     [ascii ''# IP Priority Configuration - IPv6 Preferred'',
      ascii ''# IPv6'' @ [0x4F18, 0x5148, 0x914D, 0x7F6E],
      ascii ''precedence ::/0          100'',
      ascii ''precedence ::ffff:0:0/96 50'',
      ascii ''precedence 2002::/16     30'',
      ascii ''precedence ::/96         20'',
      ascii ''precedence ::1/128       40'']"

text \<open>
  The string \<open>priority_config\<close>: each of the lines above after a newline, so that it
  starts with a newline and ends without one.
\<close>

definition priority_config :: "priority \<Rightarrow> pystr" where
  "priority_config p = concat (map (\<lambda>l. LF # l) (priority_lines p))"

definition ip_rewrite :: "priority \<Rightarrow> pystr \<Rightarrow> pystr" where
  "ip_rewrite p content =
     join_nl (ip_clean False (split_nl content)) @ priority_config p @ [LF]"

text \<open>Steps 3 to 5 of \<open>configure_ip_priority\<close> on the file.\<close>

definition ip_rewrite_step :: "priority \<Rightarrow> path \<Rightarrow> unit io" where
  "ip_rewrite_step p gai_conf =
     bind (py_read gai_conf) (\<lambda>content.
       let cleaned_lines = ip_clean False (split_nl content) in
       seq (py_open_w gai_conf)
      (seq (py_write gai_conf (join_nl cleaned_lines))
      (seq (py_write gai_conf (priority_config p))
           (py_write gai_conf [LF]))))"

section \<open>\<open>enable_bbr\<close>\<close>

definition sysctl_conf :: path where
  "sysctl_conf = ascii ''/etc/sysctl.conf''"








section \<open>Choosing the SSH port\<close>

text \<open>
  \<open>random.randint(a, b)\<close>: an integer between \<open>a\<close> and \<open>b\<close>, both included. The
  generator is modelled by the natural number \<open>r\<close> it draws from.
\<close>

definition randint :: "nat \<Rightarrow> nat \<Rightarrow> nat \<Rightarrow> nat" where
  "randint a b r = a + r mod (b - a + 1)"

text \<open>
  \<open>is_port_available\<close>: \<open>connect_ex\<close> to localhost returns 0 when the connection
  succeeds. Its answer depends on the moment of the probe, the number \<open>i\<close> of the draw.
\<close>

definition is_port_available :: "(nat \<Rightarrow> nat \<Rightarrow> int) \<Rightarrow> nat \<Rightarrow> nat \<Rightarrow> bool" where
  "is_port_available connect_ex i port \<longleftrightarrow> connect_ex i port \<noteq> 0"

text \<open>
  The loop \<open>while not is_port_available(port): port = random.randint(60000, 65535)\<close>.
  It has no bound, so it may run forever: \<open>None\<close>. The result is the port together with
  the number of the probe that accepted it.
\<close>

partial_function (option) port_loop ::
  "(nat \<Rightarrow> nat) \<Rightarrow> (nat \<Rightarrow> nat \<Rightarrow> int) \<Rightarrow> nat \<Rightarrow> nat \<Rightarrow> (nat \<times> nat) option" where
  "port_loop rnd connect_ex i port =
     (if \<not> is_port_available connect_ex i port
      then port_loop rnd connect_ex (Suc i) (randint 60000 65535 (rnd (Suc i)))
      else Some (port, i))"

definition allocate_port :: "(nat \<Rightarrow> nat) \<Rightarrow> (nat \<Rightarrow> nat \<Rightarrow> int) \<Rightarrow> (nat \<times> nat) option" where
  "allocate_port rnd connect_ex = port_loop rnd connect_ex 0 (randint 60000 65535 (rnd 0))"


section \<open>\<open>config_sshd\<close>\<close>












section \<open>\<open>increase_swap\<close>: resizing an existing swap file\<close>



section \<open>Hosts for the examples\<close>

text \<open>A host on which no command and no file operation fails, with the given files.\<close>

definition calm :: "(path \<rightharpoonup> pystr) \<Rightarrow> host" where
  "calm fs =
     \<lparr>files = fs, dirs = {}, swaps = [], events = [],
      outcome = (\<lambda>n c. \<lparr>returncode = 0, stdout = [], stderr = []\<rparr>),
      shell_effect = (\<lambda>n t fs. fs), pyfault = (\<lambda>n p. False), partial = (\<lambda>n. 0)\<rparr>"

text \<open>An edit of one file by someone else.\<close>

definition edit_file :: "path \<Rightarrow> pystr \<Rightarrow> host \<Rightarrow> host" where
  "edit_file p c h = h\<lparr>files := (files h)(p \<mapsto> c)\<rparr>"

section \<open>Notions for the statements and example values\<close>

definition has_bbr_marker :: "pystr \<Rightarrow> bool" where
  "has_bbr_marker l \<longleftrightarrow> contains bbr_marker (strip l) \<or> contains bbr_marker_cjk (strip l)"

text \<open>The lines of the file that \<open>enable_bbr\<close> writes.\<close>

definition kept_lines :: "pystr list \<Rightarrow> pystr list" where
  "kept_lines ls = (if ls = [] then [[]] else ls)"

definition has_ip_marker :: "pystr \<Rightarrow> bool" where
  "has_ip_marker l \<longleftrightarrow> contains ip_marker (strip l) \<or> contains ip_marker_cjk (strip l)"

definition valid_datetime :: "datetime \<Rightarrow> bool" where
  "valid_datetime t \<longleftrightarrow>
     1 \<le> month t \<and> month t \<le> 12 \<and> 1 \<le> day t \<and> day t \<le> 31 \<and> hour t < 24 \<and>
     minute t < 60 \<and> second t < 60"

definition same_second :: "datetime \<Rightarrow> datetime \<Rightarrow> bool" where
  "same_second s t \<longleftrightarrow>
     year s = year t \<and> month s = month t \<and> day s = day t \<and> hour s = hour t \<and>
     minute s = minute t \<and> second s = second t"

text \<open>What the file holds after the rewrite step when it held \<open>c\<close> and nothing fails.\<close>

definition bbr_apply :: "pystr \<Rightarrow> pystr" where
  "bbr_apply c = bbr_rewrite (universal_newlines c)"

definition ip_apply :: "priority \<Rightarrow> pystr \<Rightarrow> pystr" where
  "ip_apply p c = ip_rewrite p (universal_newlines c)"

definition no_pyfault :: "host \<Rightarrow> bool" where
  "no_pyfault h \<longleftrightarrow> (\<forall>n p. \<not> pyfault h n p)"

datatype action = Apply | Edit "pystr \<Rightarrow> pystr"

fun perform :: "action list \<Rightarrow> pystr \<Rightarrow> pystr" where
  "perform [] c = c"
| "perform (Apply # as) c = perform as (bbr_apply c)"
| "perform (Edit f # as) c = perform as (f c)"

definition legacy_bbr :: pystr where
  "legacy_bbr = LF # qdisc_line @ LF # congestion_line @ [LF]"

definition empty_conf :: host where
  "empty_conf = calm [sysctl_conf \<mapsto> []]"

definition demo_time :: datetime where
  "demo_time = \<lparr>year = 2024, month = 5, day = 17, hour = 10, minute = 30, second = 0, microsecond = 0\<rparr>"

definition demo_backup :: path where
  "demo_backup = ascii ''/etc/sysctl.conf.bak.20240517103000''"

definition demo_host :: host where
  "demo_host = calm [sysctl_conf \<mapsto> ascii ''a=1'']"

definition restorable :: host where
  "restorable = calm [sysctl_conf \<mapsto> ascii ''a=2'', demo_backup \<mapsto> ascii ''a=1'']"

text \<open>A host on which the rename of \<open>os.replace\<close> fails.\<close>

definition no_rename :: host where
  "no_rename = demo_host\<lparr>pyfault := (\<lambda>n p. case p of Replace a b \<Rightarrow> True | _ \<Rightarrow> False)\<rparr>"

definition all_succeed :: "host \<Rightarrow> bool" where
  "all_succeed h \<longleftrightarrow> (\<forall>n c. returncode (outcome h n c) = 0)"

text \<open>The port of the \<open>i\<close>-th draw.\<close>

definition draw :: "(nat \<Rightarrow> nat) \<Rightarrow> nat \<Rightarrow> nat" where
  "draw rnd i = randint 60000 65535 (rnd i)"


text \<open>What is known of a result \<open>r\<close> of the loop entered at draw \<open>i\<close> with that draw's port.\<close>

definition probed :: "(nat \<Rightarrow> nat) \<Rightarrow> (nat \<Rightarrow> nat \<Rightarrow> int) \<Rightarrow> nat \<Rightarrow> nat \<Rightarrow> nat \<times> nat \<Rightarrow> bool" where
  "probed rnd connect_ex i port r \<longleftrightarrow>
     (port = draw rnd i \<longrightarrow>
      i \<le> snd r \<and> fst r = draw rnd (snd r) \<and> connect_ex (snd r) (fst r) \<noteq> 0 \<and>
      (\<forall>j. i \<le> j \<and> j < snd r \<longrightarrow> connect_ex j (draw rnd j) = 0))"














section \<open>Properties\<close>

lemma split_nl_not_Nil: "split_nl s \<noteq> []"
  by (induction s) (auto split: list.splits)

lemma split_nl_append: "split_nl (a @ LF # b) = split_nl a @ split_nl b"
proof (induction a)
  case Nil
  show ?case by simp
next
  case (Cons c a)
  show ?case
  proof (cases "c = LF")
    case True
    with Cons show ?thesis by simp
  next
    case False
    obtain l ls where "split_nl a = l # ls"
      using split_nl_not_Nil [of a] by (cases "split_nl a") auto
    with False Cons show ?thesis by simp
  qed
qed

lemma split_nl_no_LF: "LF \<notin> set s \<Longrightarrow> split_nl s = [s]"
  by (induction s) auto

lemma split_nl_lines_no_LF: "l \<in> set (split_nl s) \<Longrightarrow> LF \<notin> set l"
proof (induction s arbitrary: l)
  case Nil
  then show ?case by simp
next
  case (Cons c s)
  obtain m ms where ms: "split_nl s = m # ms"
    using split_nl_not_Nil [of s] by (cases "split_nl s") auto
  show ?case
  proof (cases "c = LF")
    case True
    with Cons show ?thesis by auto
  next
    case False
    with Cons.prems ms have "l = c # m \<or> l \<in> set ms" by simp
    then show ?thesis
    proof
      assume "l = c # m"
      moreover have "LF \<notin> set m" using Cons.IH [of m] ms by simp
      ultimately show ?thesis using False by auto
    next
      assume "l \<in> set ms"
      then show ?thesis using Cons.IH [of l] ms by simp
    qed
  qed
qed

lemma split_nl_join_nl:
  "ls \<noteq> [] \<Longrightarrow> \<forall>l \<in> set ls. LF \<notin> set l \<Longrightarrow> split_nl (join_nl ls) = ls"
proof (induction ls rule: join_nl.induct)
  case 1
  then show ?case by simp
next
  case (2 l)
  then show ?case by (simp add: split_nl_no_LF)
next
  case (3 l m ls)
  then show ?case by (simp add: split_nl_append split_nl_no_LF)
qed

lemma join_nl_split_nl: "join_nl (split_nl s) = s"
proof (induction s)
  case Nil
  show ?case by simp
next
  case (Cons c s)
  obtain m ms where ms: "split_nl s = m # ms"
    using split_nl_not_Nil [of s] by (cases "split_nl s") auto
  show ?case
  proof (cases "c = LF")
    case True
    with Cons ms show ?thesis by simp
  next
    case False
    with Cons ms show ?thesis by (cases ms) auto
  qed
qed

lemma set_strip: "set (strip s) \<subseteq> set s"
proof -
  have "set (strip s) = set (dropWhile isspace (rev (dropWhile isspace s)))"
    by (simp add: strip_def)
  also have "\<dots> \<subseteq> set (rev (dropWhile isspace s))"
    by (rule set_dropWhileD [THEN subsetI])
  also have "\<dots> \<subseteq> set s"
    by (auto dest: set_dropWhileD)
  finally show ?thesis .
qed

lemma strip_idem: "strip (strip s) = strip s"
  unfolding strip_def
  by (metis (no_types, lifting) ext Nil_is_rev_conv dropWhile_eq_Nil_conv
    dropWhile_eq_self_iff dropWhile_last hd_dropWhile last_rev
    rev_swap)

lemma strip_Nil: "strip [] = []"
  by (simp add: strip_def)

lemma bbr_clean_stripped: "l \<in> set (bbr_clean skip ls) \<Longrightarrow> strip l = l \<and> \<not> has_bbr_marker l"
  by (induction skip ls rule: bbr_clean.induct)
     (auto simp: Let_def strip_idem has_bbr_marker_def split: if_splits)

lemma bbr_clean_subset: "l \<in> set (bbr_clean skip ls) \<Longrightarrow> l \<in> strip ` set ls"
  by (induction skip ls rule: bbr_clean.induct) (auto simp: Let_def split: if_splits)

lemma bbr_clean_keeps:
  "\<forall>l \<in> set xs. strip l = l \<and> \<not> has_bbr_marker l \<Longrightarrow>
   bbr_clean False (xs @ ys) = xs @ bbr_clean False ys"
proof (induction xs)
  case Nil
  show ?case by simp
next
  case (Cons x xs)
  from Cons.prems have x: "strip x = x" "\<not> contains bbr_marker x" "\<not> contains bbr_marker_cjk x"
    by (auto simp: has_bbr_marker_def)
  from Cons.prems have "bbr_clean False (xs @ ys) = xs @ bbr_clean False ys"
    by (intro Cons.IH) simp
  with x show ?case by (simp add: Let_def)
qed

lemma no_bbr_marker_Nil: "\<not> has_bbr_marker []"
  by (simp add: has_bbr_marker_def strip_Nil bbr_marker_def bbr_marker_cjk_def ascii_def)

lemma bbr_block_cleaned:
  "bbr_clean False [bbr_marker_line, qdisc_line, congestion_line, []] = []"
  by (simp add: bbr_marker_line_def qdisc_line_def congestion_line_def qdisc_key_def
      congestion_key_def bbr_marker_def bbr_marker_cjk_def ascii_def strip_def isspace_def
      startswith_def)

lemma bbr_block_no_LF:
  "LF \<notin> set bbr_marker_line" "LF \<notin> set qdisc_line" "LF \<notin> set congestion_line"
  by (simp_all add: bbr_marker_line_def qdisc_line_def congestion_line_def ascii_def LF_def)

lemma join_nl_kept_lines: "join_nl (kept_lines ls) = join_nl ls"
  by (simp add: kept_lines_def)

lemma split_nl_bbr_rewrite:
  "split_nl (bbr_rewrite content) =
     kept_lines (bbr_clean False (split_nl content)) @
       [bbr_marker_line, qdisc_line, congestion_line, []]"
proof -
  let ?L = "bbr_clean False (split_nl content)"
  have noLF: "\<forall>l \<in> set ?L. LF \<notin> set l"
  proof
    fix l assume "l \<in> set ?L"
    then obtain l0 where "l0 \<in> set (split_nl content)" and "l = strip l0"
      using bbr_clean_subset by blast
    then show "LF \<notin> set l"
      using split_nl_lines_no_LF set_strip by blast
  qed
  have "split_nl (join_nl ?L) = kept_lines ?L"
    using noLF by (cases "?L = []") (simp_all add: kept_lines_def split_nl_join_nl)
  then show ?thesis
    by (simp add: bbr_rewrite_def bbr_config_def split_nl_append split_nl_no_LF bbr_block_no_LF)
qed

lemma bbr_clean_rewrite:
  "bbr_clean False (split_nl (bbr_rewrite content)) =
     kept_lines (bbr_clean False (split_nl content))"
proof -
  let ?L = "bbr_clean False (split_nl content)"
  have "\<forall>l \<in> set (kept_lines ?L). strip l = l \<and> \<not> has_bbr_marker l"
  proof (cases "?L = []")
    case True
    then show ?thesis by (simp add: kept_lines_def strip_Nil no_bbr_marker_Nil)
  next
    case False
    then show ?thesis using bbr_clean_stripped by (simp add: kept_lines_def)
  qed
  then have "bbr_clean False (kept_lines ?L @ [bbr_marker_line, qdisc_line, congestion_line, []]) =
      kept_lines ?L @ bbr_clean False [bbr_marker_line, qdisc_line, congestion_line, []]"
    by (rule bbr_clean_keeps)
  then show ?thesis
    by (simp only: split_nl_bbr_rewrite bbr_block_cleaned append_Nil2)
qed

lemma bbr_rewrite_idem: "bbr_rewrite (bbr_rewrite content) = bbr_rewrite content"
  by (simp add: bbr_rewrite_def [of "bbr_rewrite content"] bbr_clean_rewrite join_nl_kept_lines)
     (simp add: bbr_rewrite_def)

lemma split_nl_block:
  "\<forall>l \<in> set ls. LF \<notin> set l \<Longrightarrow>
   split_nl (a @ concat (map (\<lambda>l. LF # l) ls)) = split_nl a @ ls"
proof (induction ls arbitrary: a)
  case Nil
  show ?case by simp
next
  case (Cons l ls)
  from Cons.prems have "split_nl ((a @ LF # l) @ concat (map (\<lambda>l. LF # l) ls)) =
      split_nl (a @ LF # l) @ ls"
    by (intro Cons.IH) simp
  moreover from Cons.prems have "split_nl (a @ LF # l) = split_nl a @ [l]"
    by (simp add: split_nl_append split_nl_no_LF)
  ultimately show ?case by simp
qed

lemma ip_clean_kept: "l \<in> set (ip_clean skip ls) \<Longrightarrow> l \<in> set ls \<and> \<not> has_ip_marker l"
  by (induction skip ls rule: ip_clean.induct)
     (auto simp: Let_def has_ip_marker_def split: if_splits)

lemma ip_clean_keeps:
  "\<forall>l \<in> set xs. \<not> has_ip_marker l \<Longrightarrow> ip_clean False (xs @ ys) = xs @ ip_clean False ys"
proof (induction xs)
  case Nil
  show ?case by simp
next
  case (Cons x xs)
  from Cons.prems have x: "\<not> contains ip_marker (strip x)" "\<not> contains ip_marker_cjk (strip x)"
    by (auto simp: has_ip_marker_def)
  from Cons.prems have "ip_clean False (xs @ ys) = xs @ ip_clean False ys"
    by (intro Cons.IH) simp
  with x show ?case by (simp add: Let_def)
qed

lemma no_ip_marker_Nil: "\<not> has_ip_marker []"
  by (simp add: has_ip_marker_def strip_Nil ip_marker_def ip_marker_cjk_def ascii_def)

lemma ip_block_cleaned: "ip_clean False (priority_lines p @ [[]]) = []"
  by (cases p)
     (simp_all add: ip_marker_def ip_marker_cjk_def precedence_key_def label_key_def ascii_def
       strip_def isspace_def startswith_def)

lemma priority_lines_no_LF: "\<forall>l \<in> set (priority_lines p). LF \<notin> set l"
  by (cases p) (simp_all add: ascii_def LF_def)

lemma split_nl_ip_rewrite:
  "split_nl (ip_rewrite p content) =
     kept_lines (ip_clean False (split_nl content)) @ priority_lines p @ [[]]"
proof -
  let ?L = "ip_clean False (split_nl content)"
  have noLF: "\<forall>l \<in> set ?L. LF \<notin> set l"
    using ip_clean_kept split_nl_lines_no_LF by blast
  have "split_nl (join_nl ?L) = kept_lines ?L"
    using noLF by (cases "?L = []") (simp_all add: kept_lines_def split_nl_join_nl)
  moreover have "split_nl ((join_nl ?L @ priority_config p) @ [LF]) =
      split_nl (join_nl ?L @ priority_config p) @ [[]]"
    using split_nl_append [of "join_nl ?L @ priority_config p" "[]"] by simp
  ultimately show ?thesis
    by (simp add: ip_rewrite_def priority_config_def split_nl_block priority_lines_no_LF)
qed

lemma ip_clean_rewrite:
  "ip_clean False (split_nl (ip_rewrite p content)) = kept_lines (ip_clean False (split_nl content))"
proof -
  let ?L = "ip_clean False (split_nl content)"
  have "\<forall>l \<in> set (kept_lines ?L). \<not> has_ip_marker l"
  proof (cases "?L = []")
    case True
    then show ?thesis by (simp add: kept_lines_def no_ip_marker_Nil)
  next
    case False
    then show ?thesis using ip_clean_kept by (simp add: kept_lines_def)
  qed
  then have "ip_clean False (kept_lines ?L @ priority_lines p @ [[]]) =
      kept_lines ?L @ ip_clean False (priority_lines p @ [[]])"
    by (rule ip_clean_keeps)
  then show ?thesis
    by (simp only: split_nl_ip_rewrite ip_block_cleaned append_Nil2)
qed

lemma ip_rewrite_idem: "ip_rewrite p (ip_rewrite p content) = ip_rewrite p content"
  by (simp add: ip_rewrite_def [of p "ip_rewrite p content"] ip_clean_rewrite join_nl_kept_lines)
     (simp add: ip_rewrite_def)

subsection \<open>Newline translation\<close>

lemma universal_newlines_no_CR: "CR \<notin> set (universal_newlines s)"
  by (induction s rule: universal_newlines.induct) (auto simp: CR_def LF_def)

lemma universal_newlines_id: "CR \<notin> set s \<Longrightarrow> universal_newlines s = s"
  by (induction s rule: universal_newlines.induct) auto

lemma set_join_nl: "set (join_nl ls) \<subseteq> insert LF (\<Union>l \<in> set ls. set l)"
  by (induction ls rule: join_nl.induct) auto

lemma set_split_nl: "l \<in> set (split_nl s) \<Longrightarrow> set l \<subseteq> set s"
proof (induction s arbitrary: l)
  case Nil
  then show ?case by simp
next
  case (Cons c s)
  obtain m ms where ms: "split_nl s = m # ms"
    using split_nl_not_Nil [of s] by (cases "split_nl s") auto
  from Cons.IH [of m] ms have m: "set m \<subseteq> set s" by simp
  from Cons.IH ms have rest: "\<forall>k \<in> set ms. set k \<subseteq> set s" by simp
  from Cons.prems ms m rest show ?case
    by (cases "c = LF") (auto split: if_splits)
qed

lemma bbr_rewrite_no_CR: "CR \<notin> set content \<Longrightarrow> CR \<notin> set (bbr_rewrite content)"
proof -
  assume c: "CR \<notin> set content"
  have "CR \<notin> set l" if "l \<in> set (bbr_clean False (split_nl content))" for l
  proof -
    from that obtain l0 where "l0 \<in> set (split_nl content)" "l = strip l0"
      using bbr_clean_subset by blast
    with c show ?thesis
      using set_split_nl set_strip by blast
  qed
  then have "CR \<notin> set (join_nl (bbr_clean False (split_nl content)))"
    using set_join_nl [of "bbr_clean False (split_nl content)"] by (auto simp: CR_def LF_def)
  then show ?thesis
    by (simp add: bbr_rewrite_def bbr_config_def bbr_marker_line_def qdisc_line_def
        congestion_line_def ascii_def CR_def LF_def)
qed

lemma priority_config_no_CR: "CR \<notin> set (priority_config p)"
  by (cases p) (simp_all add: priority_config_def ascii_def CR_def LF_def)

lemma ip_rewrite_no_CR: "CR \<notin> set content \<Longrightarrow> CR \<notin> set (ip_rewrite p content)"
proof -
  assume c: "CR \<notin> set content"
  have "CR \<notin> set l" if "l \<in> set (ip_clean False (split_nl content))" for l
    using that c ip_clean_kept set_split_nl by blast
  then have "CR \<notin> set (join_nl (ip_clean False (split_nl content)))"
    using set_join_nl [of "ip_clean False (split_nl content)"] by (auto simp: CR_def LF_def)
  then show ?thesis
    by (simp add: ip_rewrite_def priority_config_no_CR) (simp add: CR_def LF_def)
qed

lemma backup_name_neq: "backup_name p ts \<noteq> p"
  by (simp add: backup_name_def ascii_def)

lemma tmp_name_neq: "p @ ascii ''.tmp'' \<noteq> p"
  by (simp add: ascii_def)

lemma backup_name_inj: "backup_name p ts = backup_name p ts' \<longleftrightarrow> ts = ts'"
  by (simp add: backup_name_def)

lemma run_Cp_ok:
  assumes "run (Cp src dst) True h = (Inr r, h')"
  shows "\<exists>t. files h src = Some t \<and> src \<noteq> dst \<and> files h' = (files h)(dst \<mapsto> t) \<and>
     events h' = events h @ [Ran (Cp src dst), FileSet dst (Some t)]"
  using assms
  by (auto simp: run_def exec_def Let_def set_file_def log_event_def failed_def
      split: if_splits option.splits prod.splits)

lemma run_Mv_ok:
  assumes "run (Mv src dst) True h = (Inr r, h')"
  shows "\<exists>t. files h src = Some t \<and> src \<noteq> dst \<and> files h' = (files h)(src := None, dst \<mapsto> t)"
  using assms
  by (auto simp: run_def exec_def Let_def set_file_def set_swaps_def log_event_def failed_def
      split: if_splits option.splits prod.splits)

lemma run_raise_files:
  assumes "run c True h = (Inl e, h')"
  shows "(\<forall>t. c \<noteq> Shell t) \<longrightarrow> files h' = files h"
  using assms
  by (cases c)
     (auto simp: run_def exec_def Let_def set_file_def set_swaps_def log_event_def failed_def
      split: if_splits option.splits prod.splits)

text \<open>
  Claim C6. For a file with content \<open>original\<close>: when \<open>create_backup\<close> returns a backup
  path, the content of the file is then changed in any way (or the file removed), and
  \<open>restore_backup\<close> of that backup returns \<open>True\<close>, the file has the content
  \<open>original\<close> again.
\<close>

theorem backup_restore_roundtrip:
  assumes exists: "files h file_path = Some original"
    and backup: "create_backup now file_path h = (Some backup_path, h1)"
    and modify: "files h2 = (files h1)(file_path := changed)"
    and restore: "restore_backup backup_path file_path h2 = (True, h3)"
  shows "files h3 file_path = Some original"
proof -
  from backup have bp: "backup_path = backup_name file_path (strftime_YmdHMS now)"
    by (auto simp: create_backup_def Let_def split: if_splits prod.splits sum.splits)
  from backup obtain r where "run (Cp file_path backup_path) True h = (Inr r, h1)"
    by (auto simp: create_backup_def Let_def split: if_splits prod.splits sum.splits)
  then have "files h1 backup_path = Some original"
    using exists by (auto dest: run_Cp_ok)
  with modify bp have saved: "files h2 backup_path = Some original"
    by (simp add: backup_name_neq)
  from restore obtain r' where "run (Mv backup_path file_path) True h2 = (Inr r', h3)"
    by (auto simp: restore_backup_def split: if_splits prod.splits sum.splits)
  then show ?thesis
    using saved by (auto dest: run_Mv_ok)
qed

lemma run_Mv_ok_events:
  assumes "run (Mv src dst) True h = (Inr r, h')"
  shows "events h' = events h @ [Ran (Mv src dst), FileSet src None, FileSet dst (files h src)] @
           (if src \<in> set (swaps h) then [SwapSet (map (\<lambda>p. if p = src then dst else p) (swaps h))]
            else [])"
  using assms
  by (auto simp: run_def exec_def Let_def set_file_def set_swaps_def log_event_def failed_def
      split: if_splits option.splits prod.splits)

lemma run_Mv_missing:
  assumes "files h src = None"
  shows "fst (run (Mv src dst) True h) = Inl (CalledProcessError (if returncode (outcome h (clock h) (Mv src dst)) \<noteq> 0 then returncode (outcome h (clock h) (Mv src dst)) else 1) (Mv src dst))
     \<and> files (snd (run (Mv src dst) True h)) = files h"
  using assms
  by (auto simp: run_def exec_def Let_def set_file_def set_swaps_def log_event_def failed_def
      split: if_splits option.splits prod.splits)

text \<open>
  Claim C7, as the code has it. A restore that returns \<open>True\<close> is one \<open>mv\<close> of the
  backup onto the original path, not a copy and not a call of \<open>atomic_write\<close>: the
  original path gets the payload and the backup file is gone. A second restore therefore
  returns \<open>False\<close> and changes no file, so the content of the original path after two
  restores is the one after the first.
\<close>

theorem restore_moves_backup:
  assumes "restore_backup backup_path original_path h = (True, h1)"
  shows "files h1 original_path = files h backup_path \<and> files h1 backup_path = None \<and>
     events h1 = events h @
       [Ran (Mv backup_path original_path), FileSet backup_path None,
        FileSet original_path (files h backup_path)] @
       (if backup_path \<in> set (swaps h)
        then [SwapSet (map (\<lambda>p. if p = backup_path then original_path else p) (swaps h))]
        else []) \<and>
     fst (restore_backup backup_path original_path h1) = False \<and>
     files (snd (restore_backup backup_path original_path h1)) = files h1"
proof -
  from assms obtain r where mv: "run (Mv backup_path original_path) True h = (Inr r, h1)"
    by (auto simp: restore_backup_def split: if_splits prod.splits sum.splits)
  from run_Mv_ok [OF mv] obtain t where t: "files h backup_path = Some t"
    "backup_path \<noteq> original_path" "files h1 = (files h)(backup_path := None, original_path \<mapsto> t)"
    by blast
  then have gone: "files h1 backup_path = None" and moved: "files h1 original_path = files h backup_path"
    by simp_all
  have again: "fst (restore_backup backup_path original_path h1) = False \<and>
     files (snd (restore_backup backup_path original_path h1)) = files h1"
    using run_Mv_missing [OF gone, of original_path]
    by (auto simp: restore_backup_def split: prod.splits sum.splits)
  show ?thesis
    using gone moved again run_Mv_ok_events [OF mv] by simp
qed

text \<open>
  Claim C9. Whatever fails, \<open>atomic_write\<close> either returns \<open>True\<close> with the new content
  at the path, or returns \<open>False\<close> with the path as it was; and every content the path
  takes during the call is the whole new content.
\<close>

theorem atomic_write_all_or_nothing:
  "(fst (atomic_write file_path content h) \<longrightarrow>
      files (snd (atomic_write file_path content h)) file_path = Some content) \<and>
   (\<not> fst (atomic_write file_path content h) \<longrightarrow>
      files (snd (atomic_write file_path content h)) file_path = files h file_path) \<and>
   (\<forall>c. FileSet file_path c \<in> set (drop (length (events h)) (events (snd (atomic_write file_path content h))))
      \<longrightarrow> c = Some content)"
  using tmp_name_neq [of file_path]
  by (auto simp: atomic_write_def Let_def seq_def bind_def py_open_w_def py_write_def
      os_replace_def set_file_def log_event_def clock_def
      split: if_splits option.splits prod.splits sum.splits)

lemma str_nat_not_Nil: "str_nat n \<noteq> []"
  by (subst str_nat.simps) simp

lemma last_str_nat: "last (str_nat n) = 48 + n mod 10"
  by (subst str_nat.simps) simp

lemma butlast_str_nat: "butlast (str_nat n) = (if n < 10 then [] else str_nat (n div 10))"
  by (subst str_nat.simps) simp

lemma str_nat_inj: "str_nat n = str_nat m \<Longrightarrow> n = m"
proof (induction n arbitrary: m rule: str_nat.induct)
  case (1 n)
  from "1.prems" have l: "n mod 10 = m mod 10"
    using last_str_nat [of n] last_str_nat [of m] by simp
  from "1.prems" have b: "butlast (str_nat n) = butlast (str_nat m)"
    by simp
  show ?case
  proof (cases "n < 10")
    case True
    with b have "m < 10"
      using str_nat_not_Nil [of "m div 10"] by (auto simp: butlast_str_nat split: if_splits)
    with True l show ?thesis by simp
  next
    case False
    with b have m: "\<not> m < 10"
      using str_nat_not_Nil [of "n div 10"] by (auto simp: butlast_str_nat split: if_splits)
    with False b have "str_nat (n div 10) = str_nat (m div 10)"
      by (simp add: butlast_str_nat)
    with False have "n div 10 = m div 10"
      by (intro "1.IH") simp_all
    with l show ?thesis
      by (metis div_mult_mod_eq)
  qed
qed

lemma pad2_inj: "n < 100 \<Longrightarrow> m < 100 \<Longrightarrow> pad2 n = pad2 m \<Longrightarrow> n = m"
  by (simp add: pad2_def) (metis div_mult_mod_eq)

lemma length_pad2: "length (pad2 n) = 2"
  by (simp add: pad2_def)

lemma strftime_inj:
  assumes "valid_datetime s" and "valid_datetime t"
    and eq: "strftime_YmdHMS s = strftime_YmdHMS t"
  shows "same_second s t"
proof -
  let ?tail = "\<lambda>t. pad2 (month t) @ pad2 (day t) @ pad2 (hour t) @ pad2 (minute t) @ pad2 (second t)"
  have "length (?tail s) = length (?tail t)"
    by (simp add: length_pad2)
  with eq have y: "str_nat (year s) = str_nat (year t)" and r: "?tail s = ?tail t"
    by (simp_all add: strftime_YmdHMS_def)
  from r have "pad2 (month s) = pad2 (month t)" "pad2 (day s) = pad2 (day t)"
    "pad2 (hour s) = pad2 (hour t)" "pad2 (minute s) = pad2 (minute t)"
    "pad2 (second s) = pad2 (second t)"
    by (simp_all add: length_pad2)
  with assms(1,2) y show ?thesis
    by (auto simp: same_second_def valid_datetime_def dest!: str_nat_inj intro!: pad2_inj)
qed

lemma create_backup_ok:
  assumes "create_backup now file_path h = (Some backup_path, h1)"
  shows "backup_path = backup_name file_path (strftime_YmdHMS now) \<and>
     (\<exists>t. files h file_path = Some t \<and> files h1 = (files h)(backup_path \<mapsto> t))"
proof -
  from assms have bp: "backup_path = backup_name file_path (strftime_YmdHMS now)"
    by (auto simp: create_backup_def Let_def split: if_splits prod.splits sum.splits)
  from assms obtain r where "run (Cp file_path backup_path) True h = (Inr r, h1)"
    by (auto simp: create_backup_def Let_def split: if_splits prod.splits sum.splits)
  with bp show ?thesis
    by (auto dest: run_Cp_ok)
qed

text \<open>
  Two backups of the same path whose clock readings differ in the year, month, day, hour,
  minute or second get distinct names; after the second, the first still holds the content
  it saved.
\<close>

lemma backups_coexist:
  assumes t: "valid_datetime t1" "valid_datetime t2" "\<not> same_second t1 t2"
    and first: "create_backup t1 file_path h = (Some b1, h1)"
    and modify: "files h2 = (files h1)(file_path \<mapsto> changed)"
    and second: "create_backup t2 file_path h2 = (Some b2, h3)"
  shows "b1 = file_path @ ascii ''.bak.'' @ strftime_YmdHMS t1 \<and>
     b2 = file_path @ ascii ''.bak.'' @ strftime_YmdHMS t2 \<and> b1 \<noteq> b2 \<and>
     files h3 b1 = files h file_path \<and> files h3 b2 = Some changed"
proof -
  from create_backup_ok [OF first] obtain c1 where
    b1: "b1 = backup_name file_path (strftime_YmdHMS t1)" and
    c1: "files h file_path = Some c1" "files h1 = (files h)(b1 \<mapsto> c1)"
    by blast
  from create_backup_ok [OF second] obtain c2 where
    b2: "b2 = backup_name file_path (strftime_YmdHMS t2)" and
    c2: "files h2 file_path = Some c2" "files h3 = (files h2)(b2 \<mapsto> c2)"
    by blast
  from t have "strftime_YmdHMS t1 \<noteq> strftime_YmdHMS t2"
    using strftime_inj by blast
  with b1 b2 have ne: "b1 \<noteq> b2"
    by (simp add: backup_name_inj)
  from b1 have "b1 \<noteq> file_path"
    by (simp add: backup_name_neq)
  with c1 c2 modify ne have "files h3 b1 = Some c1" "files h3 b2 = Some changed"
    by auto
  with b1 b2 ne c1 show ?thesis
    by (simp add: backup_name_def)
qed

lemma bbr_apply_idem: "bbr_apply (bbr_apply c) = bbr_apply c"
  by (simp add: bbr_apply_def universal_newlines_id bbr_rewrite_no_CR universal_newlines_no_CR
      bbr_rewrite_idem)

lemma ip_apply_idem: "ip_apply p (ip_apply p c) = ip_apply p c"
  by (simp add: ip_apply_def universal_newlines_id ip_rewrite_no_CR universal_newlines_no_CR
      ip_rewrite_idem)

lemma write_step:
  fixes A :: "pystr \<Rightarrow> pystr" and B C :: pystr
  assumes "no_pyfault h" and "files h p = Some c" and "p \<notin> dirs h"
  defines "m \<equiv> bind (py_read p) (\<lambda>content.
       seq (py_open_w p) (seq (py_write p (A content)) (seq (py_write p B) (py_write p C))))"
  shows "fst (m h) = Inr ()"
    and "files (snd (m h)) = (files h)(p \<mapsto> A (universal_newlines c) @ B @ C)"
    and "events (snd (m h)) = events h @
      [FileSet p (Some []), FileSet p (Some (A (universal_newlines c))),
       FileSet p (Some (A (universal_newlines c) @ B)),
       FileSet p (Some (A (universal_newlines c) @ B @ C))]"
    and "no_pyfault (snd (m h))" and "dirs (snd (m h)) = dirs h"
  using assms(1-3) unfolding m_def
  by (simp_all add: no_pyfault_def bind_def seq_def py_read_def py_open_w_def py_write_def
      set_file_def log_event_def clock_def Let_def)

lemma bbr_rewrite_step_eq:
  "bbr_rewrite_step p = bind (py_read p) (\<lambda>content.
       seq (py_open_w p) (seq (py_write p ((\<lambda>c. join_nl (bbr_clean False (split_nl c))) content))
         (seq (py_write p bbr_config) (py_write p [LF]))))"
  by (simp add: bbr_rewrite_step_def Let_def)

lemma bbr_step:
  assumes "no_pyfault h" and "files h p = Some c" and "p \<notin> dirs h"
  shows "fst (bbr_rewrite_step p h) = Inr ()"
    and "files (snd (bbr_rewrite_step p h)) = (files h)(p \<mapsto> bbr_apply c)"
    and "events (snd (bbr_rewrite_step p h)) = events h @
      [FileSet p (Some []),
       FileSet p (Some (join_nl (bbr_clean False (split_nl (universal_newlines c))))),
       FileSet p (Some (join_nl (bbr_clean False (split_nl (universal_newlines c))) @ bbr_config)),
       FileSet p (Some (bbr_apply c))]"
    and "no_pyfault (snd (bbr_rewrite_step p h))" and "dirs (snd (bbr_rewrite_step p h)) = dirs h"
  unfolding bbr_rewrite_step_eq
  using write_step [OF assms, of "\<lambda>c. join_nl (bbr_clean False (split_nl c))" bbr_config "[LF]"]
  by (simp_all add: bbr_apply_def bbr_rewrite_def)

lemma ip_rewrite_step_eq:
  "ip_rewrite_step q p = bind (py_read p) (\<lambda>content.
       seq (py_open_w p) (seq (py_write p ((\<lambda>c. join_nl (ip_clean False (split_nl c))) content))
         (seq (py_write p (priority_config q)) (py_write p [LF]))))"
  by (simp add: ip_rewrite_step_def Let_def)

lemma ip_step:
  assumes "no_pyfault h" and "files h p = Some c" and "p \<notin> dirs h"
  shows "fst (ip_rewrite_step q p h) = Inr ()"
    and "files (snd (ip_rewrite_step q p h)) = (files h)(p \<mapsto> ip_apply q c)"
    and "events (snd (ip_rewrite_step q p h)) = events h @
      [FileSet p (Some []),
       FileSet p (Some (join_nl (ip_clean False (split_nl (universal_newlines c))))),
       FileSet p (Some (join_nl (ip_clean False (split_nl (universal_newlines c))) @ priority_config q)),
       FileSet p (Some (ip_apply q c))]"
    and "no_pyfault (snd (ip_rewrite_step q p h))" and "dirs (snd (ip_rewrite_step q p h)) = dirs h"
  unfolding ip_rewrite_step_eq
  using write_step [OF assms, of "\<lambda>c. join_nl (ip_clean False (split_nl c))" "priority_config q" "[LF]"]
  by (simp_all add: ip_apply_def ip_rewrite_def)

text \<open>
  Claim C2, as the code has it. When the file exists and no file operation fails, a second
  run of the clean-then-append step of \<open>enable_bbr\<close> or of \<open>configure_ip_priority\<close>
  (with the same priority) leaves every file with the bytes it had after the first run.
  The second run does write, though: it opens the file for writing again, so that the file
  is truncated to the empty text before the same content is written back.
\<close>

theorem rewrite_twice_same_bytes_written_again:
  assumes "no_pyfault h" and "files h p = Some c" and "p \<notin> dirs h"
  shows "files (snd (bbr_rewrite_step p (snd (bbr_rewrite_step p h)))) =
           files (snd (bbr_rewrite_step p h)) \<and>
         files (snd (bbr_rewrite_step p h)) p = Some (bbr_apply c) \<and>
         FileSet p (Some []) \<in> set (drop (length (events (snd (bbr_rewrite_step p h))))
           (events (snd (bbr_rewrite_step p (snd (bbr_rewrite_step p h)))))) \<and>
         files (snd (ip_rewrite_step q p (snd (ip_rewrite_step q p h)))) =
           files (snd (ip_rewrite_step q p h)) \<and>
         files (snd (ip_rewrite_step q p h)) p = Some (ip_apply q c) \<and>
         FileSet p (Some []) \<in> set (drop (length (events (snd (ip_rewrite_step q p h))))
           (events (snd (ip_rewrite_step q p (snd (ip_rewrite_step q p h))))))"
proof -
  let ?h1 = "snd (bbr_rewrite_step p h)"
  have h1: "no_pyfault ?h1" "files ?h1 p = Some (bbr_apply c)" "p \<notin> dirs ?h1"
    using bbr_step [OF assms] assms(3) by simp_all
  have b: "files (snd (bbr_rewrite_step p ?h1)) = files ?h1"
    using bbr_step(2) [OF h1] h1(2) by (simp add: bbr_apply_idem fun_upd_idem)
  have bw: "FileSet p (Some []) \<in> set (drop (length (events ?h1)) (events (snd (bbr_rewrite_step p ?h1))))"
    using bbr_step(3) [OF h1] by simp
  let ?k1 = "snd (ip_rewrite_step q p h)"
  have k1: "no_pyfault ?k1" "files ?k1 p = Some (ip_apply q c)" "p \<notin> dirs ?k1"
    using ip_step [OF assms] assms(3) by simp_all
  have i: "files (snd (ip_rewrite_step q p ?k1)) = files ?k1"
    using ip_step(2) [OF k1] k1(2) by (simp add: ip_apply_idem fun_upd_idem)
  have iw: "FileSet p (Some []) \<in> set (drop (length (events ?k1)) (events (snd (ip_rewrite_step q p ?k1))))"
    using ip_step(3) [OF k1] by simp
  from b h1(2) bw i k1(2) iw show ?thesis by simp
qed

lemma perform_append: "perform (as @ bs) c = perform bs (perform as c)"
  by (induction as c rule: perform.induct) simp_all

lemma split_nl_bbr_apply:
  "split_nl (bbr_apply c) =
     kept_lines (bbr_clean False (split_nl (universal_newlines c))) @
       [bbr_marker_line, qdisc_line, congestion_line, []]"
  by (simp add: bbr_apply_def split_nl_bbr_rewrite)

lemma kept_lines_no_marker: "filter has_bbr_marker (kept_lines (bbr_clean skip ls)) = []"
  using bbr_clean_stripped [of _ skip ls]
  by (auto simp: kept_lines_def no_bbr_marker_Nil filter_empty_conv)

lemma bbr_block_markers:
  "filter has_bbr_marker [bbr_marker_line, qdisc_line, congestion_line, []] = [bbr_marker_line]"
  by (simp add: has_bbr_marker_def bbr_marker_line_def qdisc_line_def congestion_line_def
      bbr_marker_def bbr_marker_cjk_def ascii_def strip_def isspace_def)

lemma count_kept_lines: "l \<noteq> [] \<Longrightarrow> count_list (kept_lines ls) l = count_list ls l"
  by (simp add: kept_lines_def)

lemma bbr_block_counts:
  "count_list [bbr_marker_line, qdisc_line, congestion_line, []] qdisc_line = 1"
  "count_list [bbr_marker_line, qdisc_line, congestion_line, []] congestion_line = 1"
  "qdisc_line \<noteq> []" "congestion_line \<noteq> []"
  by (simp_all add: bbr_marker_line_def qdisc_line_def congestion_line_def ascii_def)

lemma bbr_apply_funpow: "(bbr_apply ^^ Suc n) c = bbr_apply c"
  by (induction n) (simp_all add: bbr_apply_idem)

lemma kept_lines_no_ip_marker: "filter has_ip_marker (kept_lines (ip_clean skip ls)) = []"
  using ip_clean_kept [of _ skip ls]
  by (auto simp: kept_lines_def no_ip_marker_Nil filter_empty_conv)

lemma ip_block_markers:
  "filter has_ip_marker (priority_lines p @ [[]]) = [hd (priority_lines p)]"
  by (cases p)
     (simp_all add: has_ip_marker_def ip_marker_def ip_marker_cjk_def ascii_def strip_def isspace_def)

text \<open>
  What does hold of the markers: after an application of the step, whatever was applied or
  edited before, exactly one line of the file contains a marker.
\<close>

lemma one_marker_line:
  "filter has_bbr_marker (split_nl (perform (acts @ [Apply]) c)) = [bbr_marker_line]"
  "filter has_ip_marker (split_nl (ip_apply p c)) = [hd (priority_lines p)]"
proof -
  let ?L = "bbr_clean False (split_nl (universal_newlines (perform acts c)))"
  let ?block = "[bbr_marker_line, qdisc_line, congestion_line, []]"
  have lines: "split_nl (perform (acts @ [Apply]) c) = kept_lines ?L @ ?block"
    by (simp add: perform_append split_nl_bbr_apply)
  have "filter has_bbr_marker (kept_lines ?L @ ?block) = [bbr_marker_line]"
    by (simp only: filter_append kept_lines_no_marker bbr_block_markers append_Nil)
  with lines show "filter has_bbr_marker (split_nl (perform (acts @ [Apply]) c)) = [bbr_marker_line]"
    by (simp only:)
  show "filter has_ip_marker (split_nl (ip_apply p c)) = [hd (priority_lines p)]"
    using filter_append [of has_ip_marker
        "kept_lines (ip_clean False (split_nl (universal_newlines c)))" "priority_lines p @ [[]]"]
    by (simp only: ip_apply_def split_nl_ip_rewrite kept_lines_no_ip_marker ip_block_markers
        append_Nil)
qed

lemma bbr_clean_unmarked:
  "\<forall>l \<in> set ls. \<not> has_bbr_marker l \<Longrightarrow> bbr_clean False ls = map strip ls"
  by (induction ls) (auto simp: Let_def has_bbr_marker_def)

lemmas bbr_literals = bbr_marker_def bbr_marker_cjk_def bbr_marker_line_def qdisc_line_def
  congestion_line_def qdisc_key_def congestion_key_def ascii_def LF_def CR_def

text \<open>
  Claim C3 at an input where the code departs from it. The file holds a setting of its own
  and an unmarked line \<open>net.core.default_qdisc=fq\<close>, and the step is applied twice. The
  loop keeps the unmarked line, since \<open>skip_bbr_section\<close> is not set, and the block adds a
  second one: the directive line occurs twice, not exactly once. The comments of the
  script say that the step removes the existing BBR lines to avoid duplicate configuration.
\<close>

theorem unmarked_line_duplicated:
  "split_nl (perform [Apply, Apply] (ascii ''vm.swappiness=10'' @ LF # qdisc_line)) =
     [ascii ''vm.swappiness=10'', qdisc_line, bbr_marker_line, qdisc_line, congestion_line, []] \<and>
   count_list (split_nl (perform [Apply, Apply] (ascii ''vm.swappiness=10'' @ LF # qdisc_line)))
     qdisc_line = 2"
proof -
  let ?c = "ascii ''vm.swappiness=10'' @ LF # qdisc_line"
  let ?ls = "[ascii ''vm.swappiness=10'', qdisc_line]"
  have lines: "split_nl (universal_newlines ?c) = ?ls"
    by (simp add: bbr_literals)
  have "\<forall>l \<in> set ?ls. \<not> has_bbr_marker l"
    by (simp add: has_bbr_marker_def bbr_literals strip_def isspace_def)
  then have "bbr_clean False ?ls = map strip ?ls"
    by (rule bbr_clean_unmarked)
  also have "\<dots> = ?ls"
    by (simp add: bbr_literals strip_def isspace_def)
  finally have clean: "bbr_clean False ?ls = ?ls" .
  have "perform [Apply, Apply] ?c = bbr_apply ?c"
    by (simp add: bbr_apply_idem)
  then have after: "split_nl (perform [Apply, Apply] ?c) =
      ?ls @ [bbr_marker_line, qdisc_line, congestion_line, []]"
    by (simp only: split_nl_bbr_apply lines clean kept_lines_def) simp
  have "count_list (?ls @ [bbr_marker_line, qdisc_line, congestion_line, []]) qdisc_line = 2"
    by (simp add: bbr_literals)
  with after show ?thesis
    by (simp only:) simp
qed

lemma legacy_lines: "split_nl (universal_newlines legacy_bbr) = [[], qdisc_line, congestion_line, []]"
  by (simp add: legacy_bbr_def qdisc_line_def congestion_line_def ascii_def LF_def CR_def)

text \<open>
  Claim C4 at an input where the code departs from it: the unmarked pair, as
  \<open>enable_bbr\<close> of \<open>install_alpine.py\<close> appends it. The loop removes neither line, and
  after the step the file holds the pair twice, so that a duplicate
  \<open>net.ipv4.tcp_congestion_control=bbr\<close> remains.
\<close>

theorem legacy_pair_remains:
  "split_nl (bbr_apply legacy_bbr) =
     [[], qdisc_line, congestion_line, [], bbr_marker_line, qdisc_line, congestion_line, []] \<and>
   count_list (split_nl (bbr_apply legacy_bbr)) congestion_line = 2"
proof -
  let ?ls = "[[], qdisc_line, congestion_line, []]"
  have "\<forall>l \<in> set ?ls. \<not> has_bbr_marker l"
    by (simp add: has_bbr_marker_def bbr_literals strip_def isspace_def)
  then have "bbr_clean False ?ls = map strip ?ls"
    by (rule bbr_clean_unmarked)
  also have "\<dots> = ?ls"
    by (simp add: bbr_literals strip_def isspace_def)
  finally have clean: "bbr_clean False ?ls = ?ls" .
  have after: "split_nl (bbr_apply legacy_bbr) =
      ?ls @ [bbr_marker_line, qdisc_line, congestion_line, []]"
    by (simp only: split_nl_bbr_apply legacy_lines clean kept_lines_def) simp
  have "count_list (?ls @ [bbr_marker_line, qdisc_line, congestion_line, []]) congestion_line = 2"
    by (simp add: bbr_literals)
  with after show ?thesis
    by (simp only:) simp
qed

text \<open>
  Counterexample to C2 as stated (the second application performs no write): on an empty
  \<open>/etc/sysctl.conf\<close> the second run of the step truncates the file.
\<close>

theorem second_rewrite_writes_counterexample:
  "FileSet sysctl_conf (Some []) \<in>
     set (drop (length (events (snd (bbr_rewrite_step sysctl_conf empty_conf))))
       (events (snd (bbr_rewrite_step sysctl_conf (snd (bbr_rewrite_step sysctl_conf empty_conf))))))"
proof -
  have h: "no_pyfault empty_conf" "files empty_conf sysctl_conf = Some []"
    "sysctl_conf \<notin> dirs empty_conf"
    by (simp_all add: empty_conf_def calm_def no_pyfault_def)
  let ?h1 = "snd (bbr_rewrite_step sysctl_conf empty_conf)"
  have h1: "no_pyfault ?h1" "files ?h1 sysctl_conf = Some (bbr_apply [])" "sysctl_conf \<notin> dirs ?h1"
    using bbr_step [OF h] h(3) by simp_all
  show ?thesis
    using bbr_step(3) [OF h1] by simp
qed

text \<open>
  Witness for C2: an empty \<open>/etc/sysctl.conf\<close> on a host where nothing fails.
\<close>

theorem rewrite_twice_same_bytes_written_again_witness:
  "no_pyfault empty_conf \<and> files empty_conf sysctl_conf = Some [] \<and>
   sysctl_conf \<notin> dirs empty_conf \<and>
   files (snd (bbr_rewrite_step sysctl_conf (snd (bbr_rewrite_step sysctl_conf empty_conf)))) =
     files (snd (bbr_rewrite_step sysctl_conf empty_conf)) \<and>
   files (snd (bbr_rewrite_step sysctl_conf empty_conf)) sysctl_conf = Some (bbr_apply [])"
proof -
  have h: "no_pyfault empty_conf" "files empty_conf sysctl_conf = Some []"
    "sysctl_conf \<notin> dirs empty_conf"
    by (simp_all add: empty_conf_def calm_def no_pyfault_def)
  from h rewrite_twice_same_bytes_written_again [OF h, of IPv4] show ?thesis
    by simp
qed

lemmas host_defs = run_def exec_def Let_def clock_def log_event_def set_file_def
  set_swaps_def failed_def path_exists_def

lemma calm_host [simp]:
  "all_succeed (calm fs)" "no_pyfault (calm fs)" "files (calm fs) = fs" "dirs (calm fs) = {}"
  "swaps (calm fs) = []" "events (calm fs) = []"
  by (simp_all add: calm_def all_succeed_def no_pyfault_def)

lemma edit_file_simps [simp]:
  "all_succeed (edit_file p c h) = all_succeed h" "files (edit_file p c h) = (files h)(p \<mapsto> c)"
  by (simp_all add: edit_file_def all_succeed_def)

lemma create_backup_succeeds:
  assumes "all_succeed h" and "files h p = Some c"
  shows "create_backup now p h =
      (Some (backup_name p (strftime_YmdHMS now)), snd (create_backup now p h))"
    and "files (snd (create_backup now p h)) = (files h)(backup_name p (strftime_YmdHMS now) \<mapsto> c)"
    and "all_succeed (snd (create_backup now p h))"
  using assms backup_name_neq [of p "strftime_YmdHMS now"]
  by (auto simp: create_backup_def all_succeed_def host_defs)

lemma restore_backup_succeeds:
  assumes "all_succeed h" and "files h b = Some c" and "b \<noteq> p"
  shows "restore_backup b p h = (True, snd (restore_backup b p h))"
    and "files (snd (restore_backup b p h)) = (files h)(b := None, p \<mapsto> c)"
    and "all_succeed (snd (restore_backup b p h))"
  using assms
  by (auto simp: restore_backup_def all_succeed_def host_defs)

lemma demo_names:
  "backup_name sysctl_conf (strftime_YmdHMS demo_time) = demo_backup"
  "backup_name sysctl_conf (strftime_YmdHMS (demo_time\<lparr>microsecond := 500000\<rparr>)) = demo_backup"
  "backup_name sysctl_conf (strftime_YmdHMS (demo_time\<lparr>second := 1\<rparr>)) =
     ascii ''/etc/sysctl.conf.bak.20240517103001''"
  "demo_backup \<noteq> sysctl_conf"
  "ascii ''/etc/sysctl.conf.bak.20240517103001'' \<noteq> demo_backup"
  "ascii ''/etc/sysctl.conf.bak.20240517103001'' \<noteq> sysctl_conf"
  by (simp_all add: backup_name_def strftime_YmdHMS_def demo_time_def demo_backup_def
      sysctl_conf_def ascii_def pad2_def str_nat.simps)

lemma demo_files [simp]:
  "files demo_host sysctl_conf = Some (ascii ''a=1'')" "all_succeed demo_host"
  "files restorable demo_backup = Some (ascii ''a=1'')" "all_succeed restorable"
  by (simp_all add: demo_host_def restorable_def demo_names)

text \<open>
  Witness for C6: backup, edit and restore of \<open>/etc/sysctl.conf\<close> on a host where nothing
  fails.
\<close>

theorem backup_restore_roundtrip_witness:
  "files demo_host sysctl_conf = Some (ascii ''a=1'') \<and>
   fst (create_backup demo_time sysctl_conf demo_host) = Some demo_backup \<and>
   fst (restore_backup demo_backup sysctl_conf
     (edit_file sysctl_conf (ascii ''a=2'') (snd (create_backup demo_time sysctl_conf demo_host)))) \<and>
   files (snd (restore_backup demo_backup sysctl_conf
     (edit_file sysctl_conf (ascii ''a=2'') (snd (create_backup demo_time sysctl_conf demo_host)))))
     sysctl_conf = Some (ascii ''a=1'')"
proof -
  let ?h1 = "snd (create_backup demo_time sysctl_conf demo_host)"
  let ?h2 = "edit_file sysctl_conf (ascii ''a=2'') ?h1"
  note b = create_backup_succeeds [OF demo_files(2,1), of demo_time, unfolded demo_names]
  have m: "files ?h2 = (files ?h1)(sysctl_conf := Some (ascii ''a=2''))"
    by simp
  have "all_succeed ?h2" "files ?h2 demo_backup = Some (ascii ''a=1'')"
    using b(2,3) by (simp_all add: demo_names)
  note r = restore_backup_succeeds [OF this demo_names(4)]
  from backup_restore_roundtrip [OF demo_files(1) b(1) m r(1)] b(1) r(1)
  show ?thesis by (metis demo_files(1) fst_conv)
qed

text \<open>
  Counterexample to C7 as stated (restore copies the payload): after one restore the backup
  file no longer exists, and the second restore reports failure.
\<close>

theorem restore_consumes_backup_counterexample:
  "files (snd (restore_backup demo_backup sysctl_conf restorable)) demo_backup = None \<and>
   \<not> fst (restore_backup demo_backup sysctl_conf
     (snd (restore_backup demo_backup sysctl_conf restorable)))"
proof -
  note r = restore_backup_succeeds [OF demo_files(4,3) demo_names(4)]
  from r(2) have gone: "files (snd (restore_backup demo_backup sysctl_conf restorable)) demo_backup = None"
    by (simp add: demo_names)
  have "dirs (snd (restore_backup demo_backup sysctl_conf restorable)) = {}"
    by (simp add: restore_backup_def host_defs restorable_def all_succeed_def calm_def
        split: option.splits)
  with gone show ?thesis
    by (simp add: restore_backup_def [of _ _ "snd (restore_backup demo_backup sysctl_conf restorable)"]
        path_exists_def)
qed

text \<open>
  Witness for C7: a host with a changed file and its backup.
\<close>

theorem restore_moves_backup_witness:
  "fst (restore_backup demo_backup sysctl_conf restorable) \<and>
   files (snd (restore_backup demo_backup sysctl_conf restorable)) sysctl_conf =
     Some (ascii ''a=1'') \<and>
   \<not> fst (restore_backup demo_backup sysctl_conf
     (snd (restore_backup demo_backup sysctl_conf restorable)))"
proof -
  note r = restore_backup_succeeds [OF demo_files(4,3) demo_names(4)]
  from restore_moves_backup [OF r(1)] r(1) show ?thesis
    by (metis demo_files(3) fst_conv)
qed

text \<open>
  Claim C8 at an input where the code departs from it: two backups of
  \<open>/etc/sysctl.conf\<close> at 10:30:00.0 and 10:30:00.5 of the same day, with the file changed
  in between. Both get the name \<open>/etc/sysctl.conf.bak.20240517103000\<close>, and the \<open>cp\<close> of
  the second overwrites the content the first had saved.
\<close>

theorem same_second_backup_overwritten:
  "fst (create_backup demo_time sysctl_conf demo_host) =
     fst (create_backup (demo_time\<lparr>microsecond := 500000\<rparr>) sysctl_conf
       (edit_file sysctl_conf (ascii ''a=2'') (snd (create_backup demo_time sysctl_conf demo_host)))) \<and>
   files (snd (create_backup demo_time sysctl_conf demo_host)) demo_backup = Some (ascii ''a=1'') \<and>
   files (snd (create_backup (demo_time\<lparr>microsecond := 500000\<rparr>) sysctl_conf
       (edit_file sysctl_conf (ascii ''a=2'') (snd (create_backup demo_time sysctl_conf demo_host)))))
     demo_backup = Some (ascii ''a=2'')"
proof -
  let ?h1 = "snd (create_backup demo_time sysctl_conf demo_host)"
  let ?h2 = "edit_file sysctl_conf (ascii ''a=2'') ?h1"
  note b = create_backup_succeeds [OF demo_files(2,1), of demo_time, unfolded demo_names]
  have "all_succeed ?h2" "files ?h2 sysctl_conf = Some (ascii ''a=2'')"
    using b(3) by simp_all
  note b2 = create_backup_succeeds [OF this, of "demo_time\<lparr>microsecond := 500000\<rparr>",
      unfolded demo_names]
  from b(1,2) b2(1,2) show ?thesis
    by (metis fst_conv fun_upd_same)
qed

lemma no_rename_fields [simp]:
  "files no_rename sysctl_conf = Some (ascii ''a=1'')"
  by (simp add: no_rename_def demo_host_def)

text \<open>
  Witness for C9: a write that succeeds, and one whose rename fails.
\<close>

theorem atomic_write_all_or_nothing_witness:
  "fst (atomic_write sysctl_conf (ascii ''a=2'') demo_host) \<and>
   files (snd (atomic_write sysctl_conf (ascii ''a=2'') demo_host)) sysctl_conf = Some (ascii ''a=2'') \<and>
   \<not> fst (atomic_write sysctl_conf (ascii ''a=2'') no_rename) \<and>
   files (snd (atomic_write sysctl_conf (ascii ''a=2'') no_rename)) sysctl_conf = Some (ascii ''a=1'')"
proof -
  have ok: "fst (atomic_write sysctl_conf (ascii ''a=2'') demo_host)"
    by (simp add: atomic_write_def seq_def bind_def py_open_w_def py_write_def os_replace_def
        host_defs demo_host_def calm_def)
  have ko: "\<not> fst (atomic_write sysctl_conf (ascii ''a=2'') no_rename)"
    by (simp add: atomic_write_def seq_def bind_def py_open_w_def py_write_def os_replace_def
        no_rename_def host_defs demo_host_def calm_def)
  from ok ko
    atomic_write_all_or_nothing [of sysctl_conf "ascii ''a=2''" demo_host]
    atomic_write_all_or_nothing [of sysctl_conf "ascii ''a=2''" no_rename]
  show ?thesis by simp
qed


lemma port_loop_probed:
  assumes ret: "port_loop rnd connect_ex i port = Some r"
  shows "probed rnd connect_ex i port r"
proof (rule port_loop.raw_induct [where P = probed, OF _ ret])
  fix f :: "(nat \<Rightarrow> nat) \<Rightarrow> (nat \<Rightarrow> nat \<Rightarrow> int) \<Rightarrow> nat \<Rightarrow> nat \<Rightarrow> (nat \<times> nat) option"
  fix rnd connect_ex i port r
  assume IH: "\<And>rnd connect_ex i port r. f rnd connect_ex i port = Some r \<Longrightarrow>
      probed rnd connect_ex i port r"
    and eq: "(if \<not> is_port_available connect_ex i port
       then f rnd connect_ex (Suc i) (randint 60000 65535 (rnd (Suc i)))
       else Some (port, i)) = Some r"
  show "probed rnd connect_ex i port r"
  proof (cases "is_port_available connect_ex i port")
    case True
    with eq have "r = (port, i)" by simp
    with True show ?thesis
      by (auto simp: probed_def is_port_available_def)
  next
    case False
    with eq have "f rnd connect_ex (Suc i) (draw rnd (Suc i)) = Some r"
      by (simp add: draw_def)
    then have "probed rnd connect_ex (Suc i) (draw rnd (Suc i)) r"
      by (rule IH)
    then have later: "Suc i \<le> snd r" "fst r = draw rnd (snd r)" "connect_ex (snd r) (fst r) \<noteq> 0"
      "\<forall>j. Suc i \<le> j \<and> j < snd r \<longrightarrow> connect_ex j (draw rnd j) = 0"
      by (auto simp: probed_def)
    have "connect_ex j (draw rnd j) = 0" if "port = draw rnd i" "i \<le> j" "j < snd r" for j
    proof (cases "j = i")
      case True
      with False that(1) show ?thesis by (simp add: is_port_available_def)
    next
      case False
      with that(2,3) later(4) show ?thesis by simp
    qed
    with later(1-3) show ?thesis
      by (simp add: probed_def)
  qed
qed

lemma port_loop_result:
  assumes "port_loop rnd connect_ex i (draw rnd i) = Some (p, k)"
  shows "i \<le> k" "p = draw rnd k" "connect_ex k p \<noteq> 0"
    "\<forall>j. i \<le> j \<and> j < k \<longrightarrow> connect_ex j (draw rnd j) = 0"
  using port_loop_probed [OF assms] by (auto simp: probed_def)

lemma port_loop_finds:
  "connect_ex (i + d) (draw rnd (i + d)) \<noteq> 0 \<Longrightarrow>
   \<exists>p k. port_loop rnd connect_ex i (draw rnd i) = Some (p, k)"
proof (induction d arbitrary: i)
  case 0
  then show ?case
    by (subst port_loop.simps) (simp add: is_port_available_def)
next
  case (Suc d)
  then have "\<exists>p k. port_loop rnd connect_ex (Suc i) (draw rnd (Suc i)) = Some (p, k)"
    by (intro Suc.IH) simp
  then show ?case
    by (subst port_loop.simps) (auto simp: draw_def)
qed

lemma allocate_port_returns:
  "connect_ex d (draw rnd d) \<noteq> 0 \<Longrightarrow> \<exists>p k. allocate_port rnd connect_ex = Some (p, k)"
  using port_loop_finds [of connect_ex 0 d rnd] by (simp add: allocate_port_def draw_def)

lemma allocate_port_diverges:
  assumes "\<forall>j. connect_ex j (draw rnd j) = 0"
  shows "allocate_port rnd connect_ex = None"
proof (cases "allocate_port rnd connect_ex")
  case None
  then show ?thesis .
next
  case (Some r)
  obtain p k where "r = (p, k)" by (cases r)
  with Some have "port_loop rnd connect_ex 0 (draw rnd 0) = Some (p, k)"
    by (simp add: allocate_port_def draw_def)
  from port_loop_result(2,3) [OF this] assms show ?thesis by simp
qed


















































end
